theory Spec2Isabelle
  imports Complex_Main "HOL-Library.List_Lexorder"
begin

section \<open>Python strings\<close>

text \<open>
  A Python \<^verbatim>\<open>str\<close> is a sequence of Unicode code points. A code point is a natural
  number here, so that \<^verbatim>\<open>str.strip\<close> can be modelled with the whitespace set Python
  uses, which has members beyond ASCII. \<open>str\<close> turns an ASCII literal into such a
  sequence.
\<close>

type_synonym codepoint = nat
type_synonym pystr = "codepoint list"

definition str :: "string \<Rightarrow> pystr" where
  "str s = map of_char s"

abbreviation NL :: codepoint where "NL \<equiv> 10"
abbreviation SP :: codepoint where "SP \<equiv> 32"

text \<open>
  \<^verbatim>\<open>str.isspace\<close> on one character, which decides what \<^verbatim>\<open>str.strip()\<close> removes:
  U+0009..U+000D, U+001C..U+0020, U+0085, U+00A0, U+1680, U+2000..U+200A, U+2028,
  U+2029, U+202F, U+205F and U+3000.
\<close>

definition isspace :: "codepoint \<Rightarrow> bool" where
  "isspace c \<longleftrightarrow>
     (9 \<le> c \<and> c \<le> 13) \<or> (28 \<le> c \<and> c \<le> 32) \<or> c = 133 \<or> c = 160 \<or> c = 5760 \<or>
     (8192 \<le> c \<and> c \<le> 8202) \<or> c = 8232 \<or> c = 8233 \<or> c = 8239 \<or> c = 8287 \<or>
     c = 12288"

text \<open>\<^verbatim>\<open>s.strip()\<close>: leading and trailing whitespace removed.\<close>

definition strip :: "pystr \<Rightarrow> pystr" where
  "strip s = rev (dropWhile isspace (rev (dropWhile isspace s)))"

text \<open>\<^verbatim>\<open>s.replace('\n', ' ')\<close>.\<close>

definition replace_nl :: "pystr \<Rightarrow> pystr" where
  "replace_nl s = map (\<lambda>c. if c = NL then SP else c) s"

text \<open>\<^verbatim>\<open>sep.join(parts)\<close>.\<close>

fun join :: "pystr \<Rightarrow> pystr list \<Rightarrow> pystr" where
  "join sep [] = []"
| "join sep [p] = p"
| "join sep (p # q # ps) = p @ sep @ join sep (q # ps)"

text \<open>\<^verbatim>\<open>s.startswith(prefix)\<close>.\<close>

definition startswith :: "pystr \<Rightarrow> pystr \<Rightarrow> bool" where
  "startswith s pre \<longleftrightarrow> take (length pre) s = pre"

section \<open>The text formatter: normalisation\<close>

text \<open>
  \<^verbatim>\<open>_PARA_BREAK = re.compile(r'\n{2,}')\<close> and \<^verbatim>\<open>_PARA_BREAK.split(text)\<close>. The
  scan goes left to right; a match starts at the first position holding two newlines
  and, the quantifier being greedy, takes the whole run of newlines; the pieces are
  the texts between the matches, the empty ones at either end included. \<open>cons_first\<close>
  puts a character that starts no match in front of the piece being read.
\<close>

fun cons_first :: "codepoint \<Rightarrow> pystr list \<Rightarrow> pystr list" where
  "cons_first c [] = [[c]]"
| "cons_first c (p # ps) = (c # p) # ps"

function para_break_split :: "pystr \<Rightarrow> pystr list" where
  "para_break_split [] = [[]]"
| "para_break_split [c] = [[c]]"
| "para_break_split (c # d # cs) =
     (if c = NL \<and> d = NL then [] # para_break_split (dropWhile (\<lambda>x. x = NL) cs)
      else cons_first c (para_break_split (d # cs)))"
  by pat_completeness auto
termination
  by (relation "measure length")
     (auto simp: le_imp_less_Suc length_dropWhile_le less_Suc_eq_le intro: le_SucI)

text \<open>
  \<^verbatim>\<open>
  def _normalize_paragraphs(text: str) -> str:
      pretty = _PARA_BREAK.split(text)
      raw = (para.strip().replace('\n', ' ') for para in pretty)
      return '\n'.join(raw)
  \<close>
\<close>

definition normalize_paragraphs :: "pystr \<Rightarrow> pystr" where
  "normalize_paragraphs text =
     (let pretty = para_break_split text;
          raw = map (\<lambda>para. replace_nl (strip para)) pretty
      in join [NL] raw)"

text \<open>
  A text has a paragraph break when two newlines stand next to each other in it;
  \<open>newlines\<close> counts the newline characters of a text. Both are used to state and
  prove properties only.
\<close>

fun has_para_break :: "pystr \<Rightarrow> bool" where
  "has_para_break [] = False"
| "has_para_break [c] = False"
| "has_para_break (c # d # cs) = ((c = NL \<and> d = NL) \<or> has_para_break (d # cs))"

definition newlines :: "pystr \<Rightarrow> nat" where
  "newlines s = length (filter (\<lambda>c. c = NL) s)"

section \<open>The text formatter: wrapping\<close>































text \<open>
  The words of a text: \<open>words_acc P w s\<close> cuts \<open>s\<close> at the characters that satisfy
  \<open>P\<close>, with \<open>w\<close> the word being read. \<open>pywords\<close> is \<^verbatim>\<open>s.split()\<close>, the words
  between whitespace as \<^verbatim>\<open>str.isspace\<close> sees it; \<open>tw_words\<close> are the runs of
  characters between the whitespace of the wrapper.
\<close>

fun words_acc :: "(codepoint \<Rightarrow> bool) \<Rightarrow> pystr \<Rightarrow> pystr \<Rightarrow> pystr list" where
  "words_acc P w [] = (if w = [] then [] else [w])"
| "words_acc P w (c # cs) =
     (if P c then (if w = [] then words_acc P [] cs else w # words_acc P [] cs)
      else words_acc P (w @ [c]) cs)"



section \<open>Values, errors and the session\<close>

text \<open>
  The values that cross the transport boundary and sit in the parameter bundle: what
  a JSON reply decodes to, and tuples, which a sequence pattern accepts as it does
  lists. A mapping keeps its items in insertion order, with string keys. No
  arithmetic is done on a float by this program, so it is carried as the rational it
  denotes.
\<close>

datatype pyval =
    PNone
  | PBool bool
  | PInt int
  | PFloat rat
  | PStr pystr
  | PList "pyval list"
  | PTuple "pyval list"
  | PDict "(pystr \<times> pyval) list"

text \<open>
  The exceptions: \<^verbatim>\<open>TypeError\<close> and \<^verbatim>\<open>ValueError\<close> with their message,
  \<^verbatim>\<open>CompletionError(*errors)\<close> with its arguments,
  \<^verbatim>\<open>UnexpectedResponseError(other_response)\<close> with the payload, and whatever an
  external collaborator raises (the credential loader, the transport, a supplier's
  callable), which this program passes on untouched.
\<close>

datatype error =
    TypeError string
  | ValueError string
  | CompletionError "pyval list"
  | UnexpectedResponseError pyval
  | ExternalError string

text \<open>
  A Python callable with side effects (the random generator, the network) is a
  function on the state \<open>'w\<close> of the world outside: it returns or raises, and
  leaves a new state.
\<close>

type_synonym 'w callable = "'w \<Rightarrow> (error + pyval) \<times> 'w"

text \<open>
  The value of a parameter: a \<^verbatim>\<open>Supplier\<close> holding its \<^verbatim>\<open>_func\<close>, or anything
  else. \<^verbatim>\<open>Supplier.__call__\<close> returns \<^verbatim>\<open>self._func()\<close>.
\<close>

datatype 'w param = Plain pyval | Supplier "'w callable"

fun supplier_call :: "'w callable \<Rightarrow> 'w callable" where
  "supplier_call func w = func w"

text \<open>
  A \<^verbatim>\<open>Completer\<close> has the slots \<^verbatim>\<open>_inference\<close> and \<^verbatim>\<open>_text\<close> and an
  instance \<^verbatim>\<open>__dict__\<close>, where every other attribute lives, in insertion order.
  The slot \<^verbatim>\<open>_text\<close> can hold any value: \<^verbatim>\<open>complete\<close> stores into it without a
  check.
\<close>

record 'w completer =
  inference_slot :: "pyval \<Rightarrow> (pystr \<times> pyval) list \<Rightarrow> 'w callable"
  text_slot :: pyval
  attr_dict :: "(pystr \<times> 'w param) list"

text \<open>\<^verbatim>\<open>d[k] = v\<close> and \<^verbatim>\<open>d.update(other)\<close> on an insertion-ordered dictionary.\<close>

fun dict_set :: "'k \<Rightarrow> 'v \<Rightarrow> ('k \<times> 'v) list \<Rightarrow> ('k \<times> 'v) list" where
  "dict_set k v [] = [(k, v)]"
| "dict_set k v ((k', v') # d) =
     (if k' = k then (k, v) # d else (k', v') # dict_set k v d)"

fun dict_update :: "('k \<times> 'v) list \<Rightarrow> ('k \<times> 'v) list \<Rightarrow> ('k \<times> 'v) list" where
  "dict_update d [] = d"
| "dict_update d ((k, v) # kvs) = dict_update (dict_set k v d) kvs"

text \<open>
  The property \<^verbatim>\<open>text\<close>:
  \<^verbatim>\<open>
  @text.setter
  def text(self, value: str) -> None:
      if not isinstance(value, str):
          raise TypeError('prompt must be a string')
      if not value:
          raise ValueError('prompt must be nonempty')
      self._text = value
  \<close>
\<close>

definition text_getter :: "'w completer \<Rightarrow> pyval" where
  "text_getter self = text_slot self"

definition text_setter :: "pyval \<Rightarrow> 'w completer \<Rightarrow> error + 'w completer" where
  "text_setter v self =
     (case v of
        PStr s \<Rightarrow>
          if s = [] then Inl (ValueError ''prompt must be nonempty'')
          else Inr (self\<lparr>text_slot := v\<rparr>)
      | _ \<Rightarrow> Inl (TypeError ''prompt must be a string''))"

text \<open>
  \<^verbatim>\<open>
  def _set_defaults(self) -> None:
      self.do_sample = True
      self.max_new_tokens = 250
      self.seed = Supplier(functools.partial(random.randrange, 2**64))
      self.temperature = 0.75
  \<close>
  \<^verbatim>\<open>random.randrange\<close> belongs to the world outside and is a parameter.
\<close>

definition seed_func :: "(int \<Rightarrow> 'w \<Rightarrow> int \<times> 'w) \<Rightarrow> 'w callable" where
  "seed_func randrange w = (case randrange (2 ^ 64) w of (n, w') \<Rightarrow> (Inr (PInt n), w'))"

definition set_defaults :: "(int \<Rightarrow> 'w \<Rightarrow> int \<times> 'w) \<Rightarrow> 'w completer \<Rightarrow> 'w completer" where
  "set_defaults randrange self =
     self\<lparr>attr_dict :=
       dict_set (str ''temperature'') (Plain (PFloat (3 / 4)))
        (dict_set (str ''seed'') (Supplier (seed_func randrange))
          (dict_set (str ''max_new_tokens'') (Plain (PInt 250))
            (dict_set (str ''do_sample'') (Plain (PBool True)) (attr_dict self))))\<rparr>"

text \<open>
  \<^verbatim>\<open>
  def __init__(self, prompt: str, **parameters: Any) -> None:
      self._inference = _get_inference_api()
      self.text = _normalize_paragraphs(prompt)
      if any(name.startswith('_') for name in parameters):
          raise TypeError('cannot set parameter name with leading "_"')
      self._set_defaults()
      self.__dict__.update(parameters)
  \<close>
  \<open>init\<close> is the whole construction \<^verbatim>\<open>Completer(prompt, **parameters)\<close>: the
  session when \<^verbatim>\<open>__init__\<close> returns, the exception when it raises, and then the
  object under construction is not handed to anybody. The outcome of
  \<^verbatim>\<open>_get_inference_api()\<close>, which reads the token file, is a parameter. On a prompt
  that is no \<^verbatim>\<open>str\<close> the call of \<^verbatim>\<open>_PARA_BREAK.split\<close> raises
  \<^verbatim>\<open>TypeError\<close>. The slot \<^verbatim>\<open>_text\<close> is not read before the setter has stored
  into it.
\<close>

definition leading_underscore_message :: string where
  "leading_underscore_message =
     ''cannot set parameter name with leading '' @ [CHR 0x22] @ ''_'' @ [CHR 0x22]"

definition init ::
  "error + (pyval \<Rightarrow> (pystr \<times> pyval) list \<Rightarrow> 'w callable) \<Rightarrow>
   (int \<Rightarrow> 'w \<Rightarrow> int \<times> 'w) \<Rightarrow> pyval \<Rightarrow> (pystr \<times> 'w param) list \<Rightarrow>
   error + 'w completer" where
  "init get_inference_api randrange prompt parameters =
     (case get_inference_api of
        Inl e \<Rightarrow> Inl e
      | Inr inference \<Rightarrow>
          (case prompt of
             PStr s \<Rightarrow>
               (case text_setter (PStr (normalize_paragraphs s))
                      \<lparr>inference_slot = inference, text_slot = PNone, attr_dict = []\<rparr> of
                  Inl e \<Rightarrow> Inl e
                | Inr self \<Rightarrow>
                    if list_ex (\<lambda>(name, _). startswith name (str ''_'')) parameters
                    then Inl (TypeError leading_underscore_message)
                    else
                      (let self = set_defaults randrange self
                       in Inr (self\<lparr>attr_dict := dict_update (attr_dict self) parameters\<rparr>)))
           | _ \<Rightarrow> Inl (TypeError ''expected string or bytes-like object'')))"

text \<open>
  \<^verbatim>\<open>
  def _build_params(self) -> dict[str, Any]:
      return {name: (value() if isinstance(value, Supplier) else value)
              for name, value in sorted(self.__dict__.items())}
  \<close>
  The names of a dictionary differ from one another, so \<^verbatim>\<open>sorted\<close> orders the
  items by name alone, code point by code point. The comprehension evaluates the items
  in that order and stops at the first callable that raises.
\<close>

fun resolve :: "'w param \<Rightarrow> 'w callable" where
  "resolve (Supplier func) w = supplier_call func w"
| "resolve (Plain v) w = (Inr v, w)"

fun resolve_items ::
  "(pystr \<times> 'w param) list \<Rightarrow> 'w \<Rightarrow> (error + (pystr \<times> pyval) list) \<times> 'w" where
  "resolve_items [] w = (Inr [], w)"
| "resolve_items ((name, v) # rest) w =
     (case resolve v w of
        (Inl e, w') \<Rightarrow> (Inl e, w')
      | (Inr x, w') \<Rightarrow>
          (case resolve_items rest w' of
             (Inl e, w'') \<Rightarrow> (Inl e, w'')
           | (Inr xs, w'') \<Rightarrow> (Inr ((name, x) # xs), w'')))"

definition build_params ::
  "'w completer \<Rightarrow> 'w \<Rightarrow> (error + (pystr \<times> pyval) list) \<times> 'w" where
  "build_params self w = resolve_items (sort_key fst (attr_dict self)) w"

text \<open>
  The patterns of \<^verbatim>\<open>complete\<close>. A sequence pattern accepts a list or a tuple and
  never a string; a mapping pattern accepts a mapping that has the key, whatever
  else it holds. \<^verbatim>\<open>[{'generated_text': completion}]\<close> binds \<open>completion\<close> and
  \<^verbatim>\<open>{'error': [*errors]}\<close> binds \<open>errors\<close>.
\<close>

fun sequence_items :: "pyval \<Rightarrow> pyval list option" where
  "sequence_items (PList xs) = Some xs"
| "sequence_items (PTuple xs) = Some xs"
| "sequence_items _ = None"

definition match_generated_text :: "pyval \<Rightarrow> pyval option" where
  "match_generated_text response =
     (case sequence_items response of
        Some [PDict d] \<Rightarrow> map_of d (str ''generated_text'')
      | _ \<Rightarrow> None)"

definition match_error :: "pyval \<Rightarrow> pyval list option" where
  "match_error response =
     (case response of
        PDict d \<Rightarrow>
          (case map_of d (str ''error'') of
             Some v \<Rightarrow> sequence_items v
           | None \<Rightarrow> None)
      | _ \<Rightarrow> None)"

text \<open>
  \<^verbatim>\<open>
  def complete(self) -> None:
      match self._inference(inputs=self.text, params=self._build_params()):
          case [{'generated_text': completion}]:
              self._text = completion  # Whatever BLOOM returns, we accept.
          case {'error': [*errors]}:
              raise CompletionError(*errors)
          case other_response:
              raise UnexpectedResponseError(other_response)
  \<close>
  The result is what the call returns (\<^verbatim>\<open>None\<close>) or raises, the session as the
  call leaves it, and the world as the suppliers and the transport leave it.
\<close>

definition complete :: "'w completer \<Rightarrow> 'w \<Rightarrow> (error + unit) \<times> 'w completer \<times> 'w" where
  "complete self w =
     (let inputs = text_getter self in
      case build_params self w of
        (Inl e, w1) \<Rightarrow> (Inl e, self, w1)
      | (Inr params, w1) \<Rightarrow>
          (case inference_slot self inputs params w1 of
             (Inl e, w2) \<Rightarrow> (Inl e, self, w2)
           | (Inr response, w2) \<Rightarrow>
               (case match_generated_text response of
                  Some completion \<Rightarrow> (Inr (), self\<lparr>text_slot := completion\<rparr>, w2)
                | None \<Rightarrow>
                    (case match_error response of
                       Some errors \<Rightarrow> (Inl (CompletionError errors), self, w2)
                     | None \<Rightarrow> (Inl (UnexpectedResponseError response), self, w2)))))"

section \<open>Properties to state, and a session to run\<close>

text \<open>
  The invariant the specification gives for the buffer: a string, and not the empty
  one.
\<close>

definition text_invariant :: "'w completer \<Rightarrow> bool" where
  "text_invariant self \<longleftrightarrow> (case text_slot self of PStr s \<Rightarrow> s \<noteq> [] | _ \<Rightarrow> False)"

text \<open>
  A session to evaluate the operations on. The world is a counter that the stub of
  \<^verbatim>\<open>random.randrange\<close> reads and steps; the transport stub returns the reply it is
  given. \<open>stub_session\<close> is the session that \<open>init\<close> builds from the prompt
  \<^verbatim>\<open>'Once upon a time'\<close> with no overrides, and \<open>stub_params\<close> the bundle its first
  request carries.
\<close>

definition stub_randrange :: "int \<Rightarrow> nat \<Rightarrow> int \<times> nat" where
  "stub_randrange n w = (int w mod n, Suc w)"

definition stub_inference :: "pyval \<Rightarrow> pyval \<Rightarrow> (pystr \<times> pyval) list \<Rightarrow> nat callable" where
  "stub_inference response inputs params w = (Inr response, w)"

definition stub_session :: "pyval \<Rightarrow> nat completer" where
  "stub_session response =
     \<lparr>inference_slot = stub_inference response,
      text_slot = PStr (str ''Once upon a time''),
      attr_dict = [(str ''do_sample'', Plain (PBool True)),
                   (str ''max_new_tokens'', Plain (PInt 250)),
                   (str ''seed'', Supplier (seed_func stub_randrange)),
                   (str ''temperature'', Plain (PFloat (3 / 4)))]\<rparr>"

definition stub_params :: "(pystr \<times> pyval) list" where
  "stub_params = [(str ''do_sample'', PBool True), (str ''max_new_tokens'', PInt 250),
                  (str ''seed'', PInt 0), (str ''temperature'', PFloat (3 / 4))]"

text \<open>
  The replies of the specification's examples: \<^verbatim>\<open>[{'generated_text': 'Hello world'}]\<close>,
  \<^verbatim>\<open>{'error': ['rate limited']}\<close>, \<^verbatim>\<open>{'unexpected': 'shape'}\<close>,
  \<^verbatim>\<open>{'error': 'rate limited'}\<close> and \<^verbatim>\<open>[{'generated_text': ''}]\<close>.
\<close>

definition hello_response :: pyval where
  "hello_response = PList [PDict [(str ''generated_text'', PStr (str ''Hello world''))]]"

definition rate_limited_response :: pyval where
  "rate_limited_response = PDict [(str ''error'', PList [PStr (str ''rate limited'')])]"

definition unexpected_response :: pyval where
  "unexpected_response = PDict [(str ''unexpected'', PStr (str ''shape''))]"

definition error_string_response :: pyval where
  "error_string_response = PDict [(str ''error'', PStr (str ''rate limited''))]"

definition empty_completion_response :: pyval where
  "empty_completion_response = PList [PDict [(str ''generated_text'', PStr [])]]"

text \<open>
  A session whose two suppliers draw from the same generator, stored with \<^verbatim>\<open>b\<close>
  before \<^verbatim>\<open>a\<close>, and the bundle its first request carries.
\<close>

definition shared_counter_session :: "nat completer" where
  "shared_counter_session =
     \<lparr>inference_slot = stub_inference hello_response,
      text_slot = PStr (str ''Once upon a time''),
      attr_dict = [(str ''b'', Supplier (seed_func stub_randrange)),
                   (str ''top_k'', Plain (PInt 5)),
                   (str ''a'', Supplier (seed_func stub_randrange))]\<rparr>"

definition shared_counter_params :: "(pystr \<times> pyval) list" where
  "shared_counter_params = [(str ''a'', PInt 0), (str ''b'', PInt 1), (str ''top_k'', PInt 5)]"







text \<open>
  To state the lemmas on wrapping: a chunk is blank when it is whitespace and not
  empty; chunks are chained when of any two neighbours one is blank; they fit when
  every chunk that is not blank is no longer than the width; the runs of a text are
  within \<open>n\<close> when none of its \<open>tw_words\<close> is longer.
\<close>

definition blank :: "pystr \<Rightarrow> bool" where
  "blank c \<longleftrightarrow> c \<noteq> [] \<and> (\<forall>x\<in>set c. isspace x)"


definition fits :: "nat \<Rightarrow> pystr list \<Rightarrow> bool" where
  "fits width cs \<longleftrightarrow> (\<forall>c\<in>set cs. blank c \<or> length c \<le> width)"


text \<open>
  To count the calls of the suppliers: \<open>counting name func\<close> is \<open>func\<close> with a
  counter for \<open>name\<close> beside the world, stepped at every call, and
  \<open>with_call_counts\<close> is a session with each supplier's callable wrapped so.
  \<open>supplier_count name items\<close> is the number of suppliers stored under \<open>name\<close>.
\<close>

definition counting :: "pystr \<Rightarrow> 'w callable \<Rightarrow> ('w \<times> (pystr \<Rightarrow> nat)) callable" where
  "counting name func =
     (\<lambda>(w, calls). case func w of (r, w') \<Rightarrow> (r, (w', calls(name := Suc (calls name)))))"

fun count_calls :: "pystr \<times> 'w param \<Rightarrow> pystr \<times> ('w \<times> (pystr \<Rightarrow> nat)) param" where
  "count_calls (name, Plain v) = (name, Plain v)"
| "count_calls (name, Supplier func) = (name, Supplier (counting name func))"

definition with_call_counts :: "'w completer \<Rightarrow> ('w \<times> (pystr \<Rightarrow> nat)) completer" where
  "with_call_counts self =
     \<lparr>inference_slot =
        (\<lambda>inputs params (w, calls).
           case inference_slot self inputs params w of (r, w') \<Rightarrow> (r, (w', calls))),
      text_slot = text_slot self,
      attr_dict = map count_calls (attr_dict self)\<rparr>"

fun is_supplier :: "'w param \<Rightarrow> bool" where
  "is_supplier (Supplier func) = True"
| "is_supplier (Plain v) = False"

definition supplier_count :: "pystr \<Rightarrow> (pystr \<times> 'w param) list \<Rightarrow> nat" where
  "supplier_count name items = length (filter (\<lambda>(n, p). n = name \<and> is_supplier p) items)"

definition no_calls :: "pystr \<Rightarrow> nat" where
  "no_calls name = 0"

section \<open>Paragraph breaks\<close>

lemma dropWhile_replicate_append:
  "dropWhile (\<lambda>x. x = a) (replicate k a @ v) = dropWhile (\<lambda>x. x = a) v"
  by (induction k) auto

lemma split_newline_run:
  assumes "2 \<le> m"
  shows "para_break_split (replicate m NL @ v) = [] # para_break_split (dropWhile (\<lambda>x. x = NL) v)"
proof -
  from assms obtain k where m: "m = Suc (Suc k)"
    by (metis Suc_leD add_2_eq_Suc le_Suc_ex)
  show ?thesis by (simp add: m dropWhile_replicate_append)
qed

lemma split_run_length:
  assumes "2 \<le> m" and "2 \<le> n"
  shows "para_break_split (u @ replicate m NL @ v) = para_break_split (u @ replicate n NL @ v)"
proof (induction u rule: para_break_split.induct)
  case 1
  show ?case using assms by (simp add: split_newline_run)
next
  case (2 c)
  from assms obtain k where m: "m = Suc k" and k: "1 \<le> k" by (cases m) auto
  from assms obtain l where n: "n = Suc l" and l: "1 \<le> l" by (cases n) auto
  show ?case
  proof (cases "c = NL")
    case True
    have "[c] @ replicate m NL @ v = replicate (Suc m) NL @ v"
      and "[c] @ replicate n NL @ v = replicate (Suc n) NL @ v" using True by simp_all
    then show ?thesis using assms by (simp only: split_newline_run le_SucI)
  next
    case False
    have "para_break_split ([c] @ replicate m NL @ v) = cons_first c (para_break_split (replicate m NL @ v))"
      using False by (simp add: m)
    moreover have "para_break_split ([c] @ replicate n NL @ v) = cons_first c (para_break_split (replicate n NL @ v))"
      using False by (simp add: n)
    ultimately show ?thesis using assms by (simp add: split_newline_run)
  qed
next
  case (3 c d cs)
  show ?case
  proof (cases "c = NL \<and> d = NL")
    case True
    show ?thesis
    proof (cases "\<forall>x\<in>set cs. x = NL")
      case all: True
      then have "\<And>r. dropWhile (\<lambda>x. x = NL) (cs @ r) = dropWhile (\<lambda>x. x = NL) r"
        by (simp add: dropWhile_append2)
      then show ?thesis using True by (simp add: dropWhile_replicate_append)
    next
      case False
      then have "\<And>r. dropWhile (\<lambda>x. x = NL) (cs @ r) = dropWhile (\<lambda>x. x = NL) cs @ r"
        by (auto simp: dropWhile_append1)
      then show ?thesis using True 3(1) by simp
    qed
  next
    case False
    then show ?thesis using 3(2) by auto
  qed
qed

text \<open>
  Claim C6. A run of two or more newlines is one paragraph break whatever its
  length: in any text, a run of \<open>m \<ge> 2\<close> newlines standing between \<open>u\<close> and \<open>v\<close> can
  be replaced by a run of any other length \<open>n \<ge> 2\<close> without changing what
  \<open>normalize_paragraphs\<close> returns. The run need not be maximal: \<open>u\<close> may end and \<open>v\<close>
  may start with newlines.
\<close>

theorem normalize_break_run_length:
  "2 \<le> m \<Longrightarrow> 2 \<le> n \<Longrightarrow>
   normalize_paragraphs (u @ replicate m NL @ v) = normalize_paragraphs (u @ replicate n NL @ v)"
  unfolding normalize_paragraphs_def using split_run_length[of m n u v] by simp

theorem normalize_break_run_length_witness:
  "(2::nat) \<le> 3 \<and> (2::nat) \<le> 2 \<and>
   normalize_paragraphs (str ''one'' @ replicate 3 NL @ str ''two'')
     = normalize_paragraphs (str ''one'' @ replicate 2 NL @ str ''two'') \<and>
   normalize_paragraphs (str ''one'' @ replicate 2 NL @ str ''two'') = str ''one'' @ [NL] @ str ''two''"
proof -
  have m: "(2::nat) \<le> 3" and n: "(2::nat) \<le> 2" by simp_all
  have v: "normalize_paragraphs (str ''one'' @ replicate 2 NL @ str ''two'')
             = str ''one'' @ [NL] @ str ''two''"
    by (simp add: normalize_paragraphs_def str_def strip_def isspace_def replace_nl_def
        numeral_2_eq_2)
  from normalize_break_run_length[OF m n, of "str ''one''" "str ''two''"] m n v
  show ?thesis by (intro conjI)
qed

section \<open>Normalising twice\<close>

lemma split_no_break: "\<not> has_para_break x \<Longrightarrow> para_break_split x = [x]"
  by (induction x rule: para_break_split.induct) auto

lemma split_nonempty: "para_break_split x \<noteq> []"
  by (induction x rule: para_break_split.induct) (auto elim: cons_first.elims)

lemma length_cons_first: "ps \<noteq> [] \<Longrightarrow> length (cons_first c ps) = length ps"
  by (cases ps) auto

lemma split_break_length: "has_para_break x \<Longrightarrow> 2 \<le> length (para_break_split x)"
proof (induction x rule: para_break_split.induct)
  case (3 c d cs)
  show ?case
  proof (cases "c = NL \<and> d = NL")
    case True
    then show ?thesis using split_nonempty[of "dropWhile (\<lambda>x. x = NL) cs"]
      by (cases "para_break_split (dropWhile (\<lambda>x. x = NL) cs)") auto
  next
    case False
    then show ?thesis using 3 by (auto simp: length_cons_first split_nonempty)
  qed
qed auto

lemma replace_nl_no_newline: "NL \<notin> set (replace_nl s)"
  by (auto simp: replace_nl_def)

lemma no_newline_no_break: "NL \<notin> set s \<Longrightarrow> \<not> has_para_break s"
  by (induction s rule: has_para_break.induct) auto

lemma replace_nl_id: "NL \<notin> set s \<Longrightarrow> replace_nl s = s"
  by (induction s) (auto simp: replace_nl_def)

lemma strip_fixed: 
  assumes "s = [] \<or> (\<not> isspace (hd s) \<and> \<not> isspace (last s))" 
  shows "strip s = s"
proof (cases s)
  case Nil
  then show ?thesis by (simp add: strip_def)
next
  case (Cons x xs)
  with assms have h: "\<not> isspace x" and l: "\<not> isspace (last s)" by auto
  have d: "dropWhile isspace s = s" using Cons h by simp
  have "\<not> isspace (hd (rev s))" using l by (simp add: hd_rev)
  then have "dropWhile isspace (rev s) = rev s" by (simp only: dropWhile_eq_self_iff simp_thms)
  with d show ?thesis by (simp add: strip_def)
qed

lemma last_dropWhile: "dropWhile P xs \<noteq> [] \<Longrightarrow> last (dropWhile P xs) = last xs"
  by (induction xs) auto

lemma strip_ends: "strip s = [] \<or> (\<not> isspace (hd (strip s)) \<and> \<not> isspace (last (strip s)))"
proof (cases "strip s = []")
  case False
  let ?d = "dropWhile isspace s"
  let ?r = "dropWhile isspace (rev ?d)"
  from False have r: "?r \<noteq> []" by (simp add: strip_def)
  have d: "?d \<noteq> []"
  proof
    assume "?d = []"
    then have "?r = []" by (simp only: rev.simps dropWhile.simps)
    with r show False by (simp only:)
  qed
  have "last (strip s) = hd ?r" using r by (simp add: strip_def last_rev)
  moreover have "\<not> isspace (hd ?r)" using r by (rule hd_dropWhile)
  moreover have "hd (strip s) = last ?r" using r by (simp add: strip_def hd_rev)
  moreover have "last ?r = last (rev ?d)" using r by (rule last_dropWhile)
  moreover have "last (rev ?d) = hd ?d" using d by (simp add: last_rev)
  moreover have "\<not> isspace (hd ?d)" using d by (rule hd_dropWhile)
  ultimately show ?thesis by simp
qed simp

lemma isspace_NL: "isspace NL"
  by (simp add: isspace_def)

lemma strip_replace_strip: "strip (replace_nl (strip s)) = replace_nl (strip s)"
proof (cases "strip s = []")
  case True
  have "strip (replace_nl []) = replace_nl []" by (simp add: replace_nl_def strip_def)
  then show ?thesis by (simp only: True)
next
  case False
  with strip_ends[of s] have h: "\<not> isspace (hd (strip s))" and l: "\<not> isspace (last (strip s))"
    by auto
  from h l isspace_NL have "hd (strip s) \<noteq> NL" "last (strip s) \<noteq> NL" by auto
  with False have "hd (replace_nl (strip s)) = hd (strip s)" "last (replace_nl (strip s)) = last (strip s)"
    by (simp_all add: replace_nl_def hd_map last_map)
  with h l show ?thesis by (intro strip_fixed) simp
qed

lemma normalize_no_break:
  assumes "\<not> has_para_break x"
  shows "normalize_paragraphs x = replace_nl (strip x)"
  using assms by (simp add: normalize_paragraphs_def split_no_break)

lemma normalize_idem_no_break:
  assumes "\<not> has_para_break x"
  shows "normalize_paragraphs (normalize_paragraphs x) = normalize_paragraphs x"
proof -
  let ?y = "replace_nl (strip x)"
  have y: "normalize_paragraphs x = ?y" using assms by (rule normalize_no_break)
  have nb: "\<not> has_para_break ?y" by (intro no_newline_no_break replace_nl_no_newline)
  have "normalize_paragraphs ?y = replace_nl (strip ?y)" using nb by (rule normalize_no_break)
  also have "\<dots> = replace_nl ?y" by (simp add: strip_replace_strip)
  also have "\<dots> = ?y" by (intro replace_nl_id replace_nl_no_newline)
  finally show ?thesis by (simp add: y)
qed

lemma newlines_join:
  "\<forall>p\<in>set ps. NL \<notin> set p \<Longrightarrow> newlines (join [NL] ps) = length ps - 1"
  by (induction "[NL] :: pystr" ps rule: join.induct) (auto simp: newlines_def filter_empty_conv)

lemma newlines_normalize: "newlines (normalize_paragraphs y) = length (para_break_split y) - 1"
  unfolding normalize_paragraphs_def Let_def
  by (subst newlines_join) (auto simp: replace_nl_no_newline)

lemma newlines_dropWhile: "newlines (dropWhile P s) \<le> newlines s"
  by (induction s) (auto simp: newlines_def)

lemma split_breaks_bound: "2 * (length (para_break_split y) - 1) \<le> newlines y"
proof (induction y rule: para_break_split.induct)
  case (3 c d cs)
  show ?case
  proof (cases "c = NL \<and> d = NL")
    case True
    let ?t = "dropWhile (\<lambda>x. x = NL) cs"
    have "2 * (length (para_break_split ?t) - 1) \<le> newlines ?t" using 3(1) True by simp
    also have "\<dots> \<le> newlines cs" by (rule newlines_dropWhile)
    finally have "2 * (length (para_break_split ?t) - 1) \<le> newlines cs" .
    moreover have "newlines (c # d # cs) = 2 + newlines cs" using True by (simp add: newlines_def)
    moreover have "length (para_break_split ?t) \<ge> 1" using split_nonempty[of ?t] by (cases "para_break_split ?t") auto
    ultimately show ?thesis using True by simp
  next
    case False
    then have "2 * (length (para_break_split (d # cs)) - 1) \<le> newlines (d # cs)" using 3(2) by simp
    moreover have "newlines (d # cs) \<le> newlines (c # d # cs)" by (simp add: newlines_def)
    moreover have "para_break_split (c # d # cs) = cons_first c (para_break_split (d # cs))"
      using False by auto
    ultimately show ?thesis by (simp add: length_cons_first split_nonempty)
  qed
qed (auto simp: newlines_def)

lemma normalize_changes_newlines:
  assumes "NL \<in> set y"
  shows "normalize_paragraphs y \<noteq> y"
proof
  assume eq: "normalize_paragraphs y = y"
  from assms have pos: "0 < newlines y" by (auto simp: newlines_def filter_empty_conv)
  have "2 * newlines (normalize_paragraphs y) \<le> newlines y"
    using split_breaks_bound[of y] by (simp add: newlines_normalize)
  with eq pos show False by simp
qed

lemma normalize_break_has_newline:
  assumes "has_para_break x"
  shows "NL \<in> set (normalize_paragraphs x)"
proof -
  have "newlines (normalize_paragraphs x) \<ge> 1"
    using split_break_length[OF assms] by (simp add: newlines_normalize)
  then have "filter (\<lambda>c. c = NL) (normalize_paragraphs x) \<noteq> []"
    unfolding newlines_def by (metis length_0_conv not_one_le_zero)
  then show ?thesis by (simp add: filter_empty_conv)
qed

text \<open>
  Claim C3 says that normalising twice is normalising once, for every nonempty text.
  It fails on \<^verbatim>\<open>'a\n\nb'\<close>: the first pass gives \<^verbatim>\<open>'a\nb'\<close>, where the newline
  separates two paragraphs, and the second pass reads that newline as hard wrapping
  inside one paragraph and gives \<^verbatim>\<open>'a b'\<close>.
\<close>

theorem normalize_twice_differs:
  "str ''a'' @ [NL, NL] @ str ''b'' \<noteq> [] \<and>
   normalize_paragraphs (str ''a'' @ [NL, NL] @ str ''b'') = str ''a'' @ [NL] @ str ''b'' \<and>
   normalize_paragraphs (normalize_paragraphs (str ''a'' @ [NL, NL] @ str ''b'')) = str ''a b'' \<and>
   normalize_paragraphs (normalize_paragraphs (str ''a'' @ [NL, NL] @ str ''b''))
     \<noteq> normalize_paragraphs (str ''a'' @ [NL, NL] @ str ''b'')"
  by (simp add: normalize_paragraphs_def str_def strip_def isspace_def replace_nl_def)

text \<open>
  Claim C3, amended. Normalising twice is normalising once exactly for the texts that
  hold no paragraph break, that is, no two newlines next to each other; for every
  text with a paragraph break the second pass changes the result of the first.
\<close>

theorem normalize_idempotent_iff:
  "normalize_paragraphs (normalize_paragraphs x) = normalize_paragraphs x \<longleftrightarrow> \<not> has_para_break x"
  using normalize_idem_no_break normalize_changes_newlines normalize_break_has_newline by blast

theorem normalize_idempotent_iff_witness:
  "\<not> has_para_break (str '' a'' @ [NL] @ str ''b '') \<and>
   normalize_paragraphs (normalize_paragraphs (str '' a'' @ [NL] @ str ''b ''))
     = normalize_paragraphs (str '' a'' @ [NL] @ str ''b '') \<and>
   has_para_break (str ''a'' @ [NL, NL] @ str ''b'') \<and>
   normalize_paragraphs (normalize_paragraphs (str ''a'' @ [NL, NL] @ str ''b''))
     \<noteq> normalize_paragraphs (str ''a'' @ [NL, NL] @ str ''b'')"
proof -
  have n: "\<not> has_para_break (str '' a'' @ [NL] @ str ''b '')"
    and b: "has_para_break (str ''a'' @ [NL, NL] @ str ''b'')"
    by (simp_all add: str_def)
  from n b normalize_idempotent_iff[of "str '' a'' @ [NL] @ str ''b ''"]
    normalize_idempotent_iff[of "str ''a'' @ [NL, NL] @ str ''b''"]
  show ?thesis by (simp only: simp_thms)
qed

section \<open>The session's operations\<close>

lemma complete_on_response:
  assumes "build_params self w = (Inr params, w1)"
      and "inference_slot self (text_slot self) params w1 = (Inr response, w2)"
  shows "complete self w =
     (case match_generated_text response of
        Some completion \<Rightarrow> (Inr (), self\<lparr>text_slot := completion\<rparr>, w2)
      | None \<Rightarrow>
          (case match_error response of
             Some errors \<Rightarrow> (Inl (CompletionError errors), self, w2)
           | None \<Rightarrow> (Inl (UnexpectedResponseError response), self, w2)))"
  using assms by (simp add: complete_def text_getter_def)

lemma match_error_sequence: "sequence_items r = Some xs \<Longrightarrow> match_error r = None"
  by (cases r) (auto simp: match_error_def)

lemma match_generated_text_dict: "match_generated_text (PDict d) = None"
  by (simp add: match_generated_text_def)

lemma complete_result_cases:
  "(\<exists>e w'. complete self w = (Inl e, self, w')) \<or>
   (\<exists>v w'. complete self w = (Inr (), self\<lparr>text_slot := v\<rparr>, w'))"
  by (auto simp: complete_def Let_def split: prod.splits sum.splits option.splits)

lemma stub_session_init:
  "init (Inr (stub_inference response)) stub_randrange (PStr (str ''Once upon a time'')) []
     = Inr (stub_session response)"
  by (simp add: init_def text_setter_def normalize_paragraphs_def str_def strip_def isspace_def
      replace_nl_def set_defaults_def stub_session_def)

lemma stub_build_params: "build_params (stub_session response) 0 = (Inr stub_params, 1)"
  by (simp add: build_params_def stub_session_def stub_params_def str_def seed_func_def stub_randrange_def)

text \<open>
  Claim C1. When the request is built and the transport answers with a sequence of
  one mapping that has the key \<^verbatim>\<open>generated_text\<close>, \<open>complete\<close> raises nothing,
  returns no value, and leaves the session with its buffer replaced by exactly the
  value under that key: nothing is normalised or checked, and nothing else of the
  session changes.
\<close>

theorem complete_success:
  assumes "build_params self w = (Inr params, w1)"
      and "inference_slot self (text_slot self) params w1 = (Inr response, w2)"
      and "sequence_items response = Some [PDict d]"
      and "map_of d (str ''generated_text'') = Some completion"
  shows "complete self w = (Inr (), self\<lparr>text_slot := completion\<rparr>, w2)"
  using assms(3,4) by (simp add: complete_on_response[OF assms(1,2)] match_generated_text_def)

theorem complete_success_witness:
  "build_params (stub_session hello_response) 0 = (Inr stub_params, 1) \<and>
   inference_slot (stub_session hello_response) (text_slot (stub_session hello_response)) stub_params 1
     = (Inr hello_response, 1) \<and>
   sequence_items hello_response = Some [PDict [(str ''generated_text'', PStr (str ''Hello world''))]] \<and>
   map_of [(str ''generated_text'', PStr (str ''Hello world''))] (str ''generated_text'')
     = Some (PStr (str ''Hello world'')) \<and>
   complete (stub_session hello_response) 0
     = (Inr (), (stub_session hello_response)\<lparr>text_slot := PStr (str ''Hello world'')\<rparr>, 1)"
proof -
  have b: "build_params (stub_session hello_response) 0 = (Inr stub_params, 1)"
    by (rule stub_build_params)
  have t: "inference_slot (stub_session hello_response) (text_slot (stub_session hello_response))
             stub_params 1 = (Inr hello_response, 1)"
    by (simp add: stub_session_def stub_inference_def)
  have s: "sequence_items hello_response
             = Some [PDict [(str ''generated_text'', PStr (str ''Hello world''))]]"
    by (simp add: hello_response_def)
  have m: "map_of [(str ''generated_text'', PStr (str ''Hello world''))] (str ''generated_text'')
             = Some (PStr (str ''Hello world''))"
    by simp
  from complete_success[OF b t s m] b t s m show ?thesis by blast
qed

text \<open>
  Claim C2. When the transport answers with a mapping whose key \<^verbatim>\<open>error\<close> holds a
  sequence, \<open>complete\<close> raises \<^verbatim>\<open>CompletionError\<close> with exactly the items of that
  sequence; when the answer has neither that shape nor the shape of a success,
  \<open>complete\<close> raises \<^verbatim>\<open>UnexpectedResponseError\<close> with the answer itself. Whenever
  \<open>complete\<close> raises, the session is the one it was called on, and when it returns,
  the session differs in its buffer alone.
\<close>

theorem complete_failure:
  "(build_params self w = (Inr params, w1) \<and>
    inference_slot self (text_slot self) params w1 = (Inr response, w2) \<longrightarrow>
      (response = PDict d \<and> map_of d (str ''error'') = Some v \<and> sequence_items v = Some errors
         \<longrightarrow> complete self w = (Inl (CompletionError errors), self, w2)) \<and>
      ((\<nexists>d' c. sequence_items response = Some [PDict d'] \<and>
                 map_of d' (str ''generated_text'') = Some c) \<and>
       (\<nexists>d' v' errors'. response = PDict d' \<and> map_of d' (str ''error'') = Some v' \<and>
                 sequence_items v' = Some errors')
         \<longrightarrow> complete self w = (Inl (UnexpectedResponseError response), self, w2))) \<and>
   (\<forall>e. fst (complete self w) = Inl e \<longrightarrow> fst (snd (complete self w)) = self) \<and>
   (fst (complete self w) = Inr () \<longrightarrow>
      (\<exists>completion. fst (snd (complete self w)) = self\<lparr>text_slot := completion\<rparr>))"
proof (intro conjI impI allI)
  assume a: "build_params self w = (Inr params, w1) \<and>
    inference_slot self (text_slot self) params w1 = (Inr response, w2)"
  assume "response = PDict d \<and> map_of d (str ''error'') = Some v \<and> sequence_items v = Some errors"
  then show "complete self w = (Inl (CompletionError errors), self, w2)"
    using a by (simp add: complete_on_response match_generated_text_dict match_error_def)
next
  assume a: "build_params self w = (Inr params, w1) \<and>
    inference_slot self (text_slot self) params w1 = (Inr response, w2)"
  assume n: "(\<nexists>d' c. sequence_items response = Some [PDict d'] \<and>
                 map_of d' (str ''generated_text'') = Some c) \<and>
       (\<nexists>d' v' errors'. response = PDict d' \<and> map_of d' (str ''error'') = Some v' \<and>
                 sequence_items v' = Some errors')"
  have g: "match_generated_text response = None"
  proof (cases "match_generated_text response")
    case (Some c)
    then obtain d' where "sequence_items response = Some [PDict d']"
      and "map_of d' (str ''generated_text'') = Some c"
      by (auto simp: match_generated_text_def split: option.splits list.splits pyval.splits)
    with n show ?thesis by blast
  qed simp
  have e: "match_error response = None"
  proof (cases "match_error response")
    case (Some es)
    then obtain d' v' where "response = PDict d'" "map_of d' (str ''error'') = Some v'"
      "sequence_items v' = Some es"
      by (auto simp: match_error_def split: option.splits pyval.splits)
    with n show ?thesis by blast
  qed simp
  from a g e show "complete self w = (Inl (UnexpectedResponseError response), self, w2)"
    by (simp add: complete_on_response)
next
  fix e assume "fst (complete self w) = Inl e"
  with complete_result_cases[of self w] show "fst (snd (complete self w)) = self" by auto
next
  assume "fst (complete self w) = Inr ()"
  with complete_result_cases[of self w]
  show "\<exists>completion. fst (snd (complete self w)) = self\<lparr>text_slot := completion\<rparr>" by auto
qed

theorem complete_failure_witness:
  "complete (stub_session rate_limited_response) 0
     = (Inl (CompletionError [PStr (str ''rate limited'')]), stub_session rate_limited_response, 1) \<and>
   complete (stub_session unexpected_response) 0
     = (Inl (UnexpectedResponseError unexpected_response), stub_session unexpected_response, 1) \<and>
   text_slot (fst (snd (complete (stub_session unexpected_response) 0)))
     = PStr (str ''Once upon a time'')"
proof -
  have t: "\<And>r. inference_slot (stub_session r) (text_slot (stub_session r)) stub_params 1 = (Inr r, 1)"
    by (simp add: stub_session_def stub_inference_def)
  have 1: "complete (stub_session rate_limited_response) 0
     = (Inl (CompletionError [PStr (str ''rate limited'')]), stub_session rate_limited_response, 1)"
    using complete_failure[of "stub_session rate_limited_response" 0 stub_params 1
        rate_limited_response 1 "[(str ''error'', PList [PStr (str ''rate limited'')])]"
        "PList [PStr (str ''rate limited'')]" "[PStr (str ''rate limited'')]"]
      stub_build_params[of rate_limited_response] t[of rate_limited_response]
    by (simp add: rate_limited_response_def)
  have 2: "complete (stub_session unexpected_response) 0
     = (Inl (UnexpectedResponseError unexpected_response), stub_session unexpected_response, 1)"
    using complete_failure[of "stub_session unexpected_response" 0 stub_params 1
        unexpected_response 1]
      stub_build_params[of unexpected_response] t[of unexpected_response]
    by (simp add: unexpected_response_def str_def)
  from 1 2 show ?thesis by (simp add: stub_session_def)
qed

text \<open>
  Claim C10. When the transport answers with a mapping whose key \<^verbatim>\<open>error\<close> holds
  a string, \<open>complete\<close> raises \<^verbatim>\<open>UnexpectedResponseError\<close> with the whole answer
  and not \<^verbatim>\<open>CompletionError\<close>: a string is no sequence of messages.
\<close>

theorem complete_error_string_unexpected:
  assumes "build_params self w = (Inr params, w1)"
      and "inference_slot self (text_slot self) params w1 = (Inr response, w2)"
      and "response = PDict d"
      and "map_of d (str ''error'') = Some (PStr s)"
  shows "complete self w = (Inl (UnexpectedResponseError response), self, w2)"
  using assms(3,4)
  by (simp add: complete_on_response[OF assms(1,2)] match_generated_text_dict match_error_def)

theorem complete_error_string_unexpected_witness:
  "build_params (stub_session error_string_response) 0 = (Inr stub_params, 1) \<and>
   inference_slot (stub_session error_string_response)
     (text_slot (stub_session error_string_response)) stub_params 1
     = (Inr error_string_response, 1) \<and>
   error_string_response = PDict [(str ''error'', PStr (str ''rate limited''))] \<and>
   map_of [(str ''error'', PStr (str ''rate limited''))] (str ''error'')
     = Some (PStr (str ''rate limited'')) \<and>
   complete (stub_session error_string_response) 0
     = (Inl (UnexpectedResponseError error_string_response), stub_session error_string_response, 1)"
proof -
  have b: "build_params (stub_session error_string_response) 0 = (Inr stub_params, 1)"
    by (rule stub_build_params)
  have t: "inference_slot (stub_session error_string_response)
     (text_slot (stub_session error_string_response)) stub_params 1
     = (Inr error_string_response, 1)"
    by (simp add: stub_session_def stub_inference_def)
  have r: "error_string_response = PDict [(str ''error'', PStr (str ''rate limited''))]"
    by (simp add: error_string_response_def)
  have m: "map_of [(str ''error'', PStr (str ''rate limited''))] (str ''error'')
     = Some (PStr (str ''rate limited''))"
    by simp
  from complete_error_string_unexpected[OF b t r m] b t r m show ?thesis by blast
qed

section \<open>Construction\<close>

lemma normalize_empty: "normalize_paragraphs [] = []"
  by (simp add: normalize_paragraphs_def strip_def replace_nl_def)

lemma set_defaults_text: "text_slot (set_defaults randrange self) = text_slot self"
  by (simp add: set_defaults_def)

lemma text_setter_Inr:
  "text_setter v self = Inr self' \<Longrightarrow> self' = self\<lparr>text_slot := v\<rparr> \<and> (\<exists>s. v = PStr s \<and> s \<noteq> [])"
  by (cases v) (auto simp: text_setter_def split: if_splits)

lemma init_text_invariant:
  assumes "init get_inference_api randrange prompt parameters = Inr self"
  shows "text_invariant self"
proof -
  from assms obtain inference where g: "get_inference_api = Inr inference"
    by (cases get_inference_api) (auto simp: init_def)
  from assms g obtain s where p: "prompt = PStr s"
    by (cases prompt) (auto simp: init_def)
  let ?blank = "\<lparr>inference_slot = inference, text_slot = PNone, attr_dict = []\<rparr>"
  from assms g p obtain self0 where
    t: "text_setter (PStr (normalize_paragraphs s)) ?blank = Inr self0"
    by (cases "text_setter (PStr (normalize_paragraphs s)) ?blank") (auto simp: init_def)
  from text_setter_Inr[OF t] have t0: "text_slot self0 = PStr (normalize_paragraphs s)"
    and ne: "normalize_paragraphs s \<noteq> []" by auto
  from assms g p t have
    "self = (set_defaults randrange self0)\<lparr>attr_dict :=
        dict_update (attr_dict (set_defaults randrange self0)) parameters\<rparr>"
    by (simp add: init_def Let_def split: if_splits)
  then have "text_slot self = PStr (normalize_paragraphs s)"
    by (simp add: set_defaults_text t0)
  with ne show ?thesis by (simp add: text_invariant_def)
qed

lemma init_cases:
  "init (Inr inference) randrange prompt parameters = Inl e \<Longrightarrow>
     e = TypeError ''expected string or bytes-like object'' \<or>
     e = ValueError ''prompt must be nonempty'' \<or>
     e = TypeError leading_underscore_message"
  by (auto simp: init_def text_setter_def Let_def split: pyval.splits if_splits)

text \<open>
  Claim C8. With the transport handle at hand, constructing a session on the empty
  string raises \<^verbatim>\<open>ValueError\<close> and constructing it on a prompt that is no string
  raises \<^verbatim>\<open>TypeError\<close>; whatever the outcome of obtaining the handle, the
  construction on such a prompt raises and yields no session.
\<close>

theorem init_rejects_bad_prompt:
  "init (Inr inference) randrange (PStr []) parameters = Inl (ValueError ''prompt must be nonempty'') \<and>
   ((\<nexists>s. prompt = PStr s) \<longrightarrow>
      init (Inr inference) randrange prompt parameters
        = Inl (TypeError ''expected string or bytes-like object'')) \<and>
   (prompt = PStr [] \<or> (\<nexists>s. prompt = PStr s) \<longrightarrow>
      (\<exists>e. init get_inference_api randrange prompt parameters = Inl e))"
proof (intro conjI impI)
  show e: "init (Inr inference) randrange (PStr []) parameters = Inl (ValueError ''prompt must be nonempty'')"
    for inference :: "pyval \<Rightarrow> (pystr \<times> pyval) list \<Rightarrow> 'a callable"
    by (simp add: init_def normalize_empty text_setter_def)
  show n: "init (Inr inference) randrange prompt parameters
        = Inl (TypeError ''expected string or bytes-like object'')"
    if "\<nexists>s. prompt = PStr s" for inference :: "pyval \<Rightarrow> (pystr \<times> pyval) list \<Rightarrow> 'a callable"
    using that by (cases prompt) (auto simp: init_def)
  assume "prompt = PStr [] \<or> (\<nexists>s. prompt = PStr s)"
  then show "\<exists>e. init get_inference_api randrange prompt parameters = Inl e"
    using e n by (cases get_inference_api) (auto simp: init_def)
qed

theorem init_rejects_bad_prompt_witness:
  "init (Inr (stub_inference hello_response)) stub_randrange (PStr []) []
     = Inl (ValueError ''prompt must be nonempty'') \<and>
   init (Inr (stub_inference hello_response)) stub_randrange (PInt 5) []
     = Inl (TypeError ''expected string or bytes-like object'') \<and>
   init (Inl (ExternalError ''FileNotFoundError'')) stub_randrange (PInt 5) []
     = Inl (ExternalError ''FileNotFoundError'')"
  using init_rejects_bad_prompt[of "stub_inference hello_response" stub_randrange "[]" "PInt 5"
      "Inl (ExternalError ''FileNotFoundError'')"]
  by (simp add: init_def)

text \<open>
  Claim C9. When a name among the override parameters starts with an underscore, the
  construction raises and yields no session; with the transport handle at hand the
  exception is a \<^verbatim>\<open>TypeError\<close> or a \<^verbatim>\<open>ValueError\<close>, and on a prompt that
  normalises to a nonempty string it is the \<^verbatim>\<open>TypeError\<close> about the leading
  underscore.
\<close>

theorem init_rejects_reserved_name:
  assumes "(name, v) \<in> set parameters" and "startswith name (str ''_'')"
  shows "(\<exists>e. init get_inference_api randrange prompt parameters = Inl e) \<and>
         (\<forall>inference. \<exists>msg.
            init (Inr inference) randrange prompt parameters = Inl (TypeError msg) \<or>
            init (Inr inference) randrange prompt parameters = Inl (ValueError msg)) \<and>
         (\<forall>inference s. prompt = PStr s \<and> normalize_paragraphs s \<noteq> [] \<longrightarrow>
            init (Inr inference) randrange prompt parameters
              = Inl (TypeError leading_underscore_message))"
proof -
  from assms have ex: "list_ex (\<lambda>(name, _). startswith name (str ''_'')) parameters"
    by (auto simp: list_ex_iff)
  have fail: "\<exists>e. init get_inference_api randrange prompt parameters = Inl e"
    for get_inference_api :: "error + (pyval \<Rightarrow> (pystr \<times> pyval) list \<Rightarrow> 'a callable)"
    using ex by (auto simp: init_def text_setter_def split: sum.splits pyval.splits)
  have usage: "\<exists>msg.
            init (Inr inference) randrange prompt parameters = Inl (TypeError msg) \<or>
            init (Inr inference) randrange prompt parameters = Inl (ValueError msg)"
    for inference :: "pyval \<Rightarrow> (pystr \<times> pyval) list \<Rightarrow> 'a callable"
    using fail[of "Inr inference"] init_cases[of inference randrange prompt parameters] by auto
  have exact: "init (Inr inference) randrange prompt parameters
              = Inl (TypeError leading_underscore_message)"
    if "prompt = PStr s \<and> normalize_paragraphs s \<noteq> []"
    for inference :: "pyval \<Rightarrow> (pystr \<times> pyval) list \<Rightarrow> 'a callable" and s
    using that ex by (simp add: init_def text_setter_def)
  from fail usage exact show ?thesis by blast
qed

theorem init_rejects_reserved_name_witness:
  "(str ''_secret'', Plain (PInt 1))
      \<in> set [(str ''top_k'', Plain (PInt 5)), (str ''_secret'', Plain (PInt 1)) :: pystr \<times> nat param] \<and>
   startswith (str ''_secret'') (str ''_'') \<and>
   init (Inr (stub_inference hello_response)) stub_randrange (PStr (str ''Once upon a time''))
     [(str ''top_k'', Plain (PInt 5)), (str ''_secret'', Plain (PInt 1))]
     = Inl (TypeError leading_underscore_message)"
proof -
  have m: "(str ''_secret'', Plain (PInt 1))
      \<in> set [(str ''top_k'', Plain (PInt 5)), (str ''_secret'', Plain (PInt 1)) :: pystr \<times> nat param]"
    by simp
  have s: "startswith (str ''_secret'') (str ''_'')"
    by (simp add: startswith_def str_def)
  have n: "normalize_paragraphs (str ''Once upon a time'') \<noteq> []"
    by (simp add: normalize_paragraphs_def str_def strip_def isspace_def replace_nl_def)
  have "init (Inr (stub_inference hello_response)) stub_randrange (PStr (str ''Once upon a time''))
     [(str ''top_k'', Plain (PInt 5)), (str ''_secret'', Plain (PInt 1))]
     = Inl (TypeError leading_underscore_message)"
    using init_rejects_reserved_name[OF m s, THEN conjunct2, THEN conjunct2, rule_format,
        of "PStr (str ''Once upon a time'')" "str ''Once upon a time''"] n
    by (simp only: simp_thms)
  with m s show ?thesis by (intro conjI)
qed

section \<open>The buffer invariant\<close>

text \<open>
  Claim C4 says that every operation keeps the buffer a nonempty string, the
  replacement by a successful \<open>complete\<close> included. On the session built from
  \<^verbatim>\<open>'Once upon a time'\<close>, with the transport answering
  \<^verbatim>\<open>[{'generated_text': ''}]\<close>, \<open>complete\<close> returns and leaves the empty string as
  the buffer.
\<close>

theorem complete_breaks_text_invariant:
  "text_invariant (stub_session empty_completion_response) \<and>
   complete (stub_session empty_completion_response) 0
     = (Inr (), (stub_session empty_completion_response)\<lparr>text_slot := PStr []\<rparr>, 1) \<and>
   \<not> text_invariant ((stub_session empty_completion_response)\<lparr>text_slot := PStr []\<rparr>)"
proof -
  have t: "inference_slot (stub_session empty_completion_response)
             (text_slot (stub_session empty_completion_response)) stub_params 1
           = (Inr empty_completion_response, 1)"
    by (simp add: stub_session_def stub_inference_def)
  have m: "match_generated_text empty_completion_response = Some (PStr [])"
    by (simp add: empty_completion_response_def match_generated_text_def)
  have "complete (stub_session empty_completion_response) 0
     = (Inr (), (stub_session empty_completion_response)\<lparr>text_slot := PStr []\<rparr>, 1)"
    by (simp only: complete_on_response[OF stub_build_params t] m option.case)
  then show ?thesis by (simp add: text_invariant_def stub_session_def str_def)
qed

text \<open>
  Claim C4, amended. The buffer is a nonempty string after every construction that
  yields a session and after every assignment through the setter that returns; the
  setter raises on the empty string and on a value that is no string; a call of
  \<open>complete\<close> that raises leaves the session as it was. A call of \<open>complete\<close> that
  succeeds stores the returned value unchecked, so the buffer is a nonempty string
  after it exactly when that value is one.
\<close>

theorem text_invariant_by_setter:
  "(init get_inference_api randrange prompt parameters = Inr self \<longrightarrow> text_invariant self) \<and>
   (text_setter v self = Inr self' \<longrightarrow>
      text_invariant self' \<and> self' = self\<lparr>text_slot := v\<rparr> \<and> (\<exists>s. v = PStr s \<and> s \<noteq> [])) \<and>
   (v = PStr [] \<or> (\<nexists>s. v = PStr s) \<longrightarrow> (\<exists>e. text_setter v self = Inl e)) \<and>
   (fst (complete self w) = Inl e \<longrightarrow> fst (snd (complete self w)) = self) \<and>
   (build_params self w = (Inr params, w1) \<and>
    inference_slot self (text_slot self) params w1 = (Inr response, w2) \<and>
    sequence_items response = Some [PDict d] \<and>
    map_of d (str ''generated_text'') = Some completion \<longrightarrow>
      fst (snd (complete self w)) = self\<lparr>text_slot := completion\<rparr> \<and>
      (text_invariant (fst (snd (complete self w))) \<longleftrightarrow> (\<exists>s. completion = PStr s \<and> s \<noteq> [])))"
proof (intro conjI impI)
  assume "init get_inference_api randrange prompt parameters = Inr self"
  then show "text_invariant self" by (rule init_text_invariant)
next
  assume s: "text_setter v self = Inr self'"
  from text_setter_Inr[OF s]
  show "text_invariant self'" "self' = self\<lparr>text_slot := v\<rparr>" "\<exists>s. v = PStr s \<and> s \<noteq> []"
    by (auto simp: text_invariant_def)
next
  assume "v = PStr [] \<or> (\<nexists>s. v = PStr s)"
  then show "\<exists>e. text_setter v self = Inl e"
    by (cases v) (auto simp: text_setter_def)
next
  assume "fst (complete self w) = Inl e"
  with complete_result_cases[of self w] show "fst (snd (complete self w)) = self" by auto
next
  assume a: "build_params self w = (Inr params, w1) \<and>
    inference_slot self (text_slot self) params w1 = (Inr response, w2) \<and>
    sequence_items response = Some [PDict d] \<and>
    map_of d (str ''generated_text'') = Some completion"
  then have c: "complete self w = (Inr (), self\<lparr>text_slot := completion\<rparr>, w2)"
    by (simp add: complete_on_response match_generated_text_def)
  then show "fst (snd (complete self w)) = self\<lparr>text_slot := completion\<rparr>" by simp
  from c show "text_invariant (fst (snd (complete self w))) \<longleftrightarrow> (\<exists>s. completion = PStr s \<and> s \<noteq> [])"
    by (cases completion) (auto simp: text_invariant_def)
qed

theorem text_invariant_by_setter_witness:
  "init (Inr (stub_inference hello_response)) stub_randrange (PStr (str ''Once upon a time'')) []
     = Inr (stub_session hello_response) \<and>
   text_invariant (stub_session hello_response) \<and>
   text_setter (PStr []) (stub_session hello_response) = Inl (ValueError ''prompt must be nonempty'') \<and>
   text_setter (PInt 5) (stub_session hello_response) = Inl (TypeError ''prompt must be a string'') \<and>
   text_invariant (fst (snd (complete (stub_session hello_response) 0)))"
proof -
  have i: "init (Inr (stub_inference hello_response)) stub_randrange (PStr (str ''Once upon a time'')) []
     = Inr (stub_session hello_response)"
    by (rule stub_session_init)
  have b: "build_params (stub_session hello_response) 0 = (Inr stub_params, 1)"
    by (rule stub_build_params)
  have t: "inference_slot (stub_session hello_response) (text_slot (stub_session hello_response))
             stub_params 1 = (Inr hello_response, 1)"
    by (simp add: stub_session_def stub_inference_def)
  have s: "sequence_items hello_response
             = Some [PDict [(str ''generated_text'', PStr (str ''Hello world''))]]"
    by (simp add: hello_response_def)
  have m: "map_of [(str ''generated_text'', PStr (str ''Hello world''))] (str ''generated_text'')
             = Some (PStr (str ''Hello world''))"
    by simp
  note inst = text_invariant_by_setter[of "Inr (stub_inference hello_response)" stub_randrange
      "PStr (str ''Once upon a time'')" "[]" "stub_session hello_response" "PStr []" _
      0 _ stub_params 1 hello_response 1 "[(str ''generated_text'', PStr (str ''Hello world''))]"
      "PStr (str ''Hello world'')"]
  have inv: "text_invariant (stub_session hello_response)"
    using inst[THEN conjunct1] i by (rule mp)
  have "text_invariant (fst (snd (complete (stub_session hello_response) 0)))
          \<longleftrightarrow> (\<exists>s. PStr (str ''Hello world'') = PStr s \<and> s \<noteq> [])"
    using inst[THEN conjunct2, THEN conjunct2, THEN conjunct2, THEN conjunct2] b t s m by blast
  moreover have "\<exists>s. PStr (str ''Hello world'') = PStr s \<and> s \<noteq> []"
    by (simp add: str_def)
  ultimately have c: "text_invariant (fst (snd (complete (stub_session hello_response) 0)))"
    by (simp only:)
  have e1: "text_setter (PStr []) (stub_session hello_response)
              = Inl (ValueError ''prompt must be nonempty'')"
    by (simp add: text_setter_def)
  have e2: "text_setter (PInt 5) (stub_session hello_response)
              = Inl (TypeError ''prompt must be a string'')"
    by (simp add: text_setter_def)
  from i inv e1 e2 c show ?thesis by (intro conjI)
qed

section \<open>Building the request parameters\<close>

lemma fst_count_calls: "fst (count_calls item) = fst item"
  by (cases item rule: count_calls.cases) auto

lemma insort_count_calls:
  "insort_key fst (count_calls x) (map count_calls ys) = map count_calls (insort_key fst x ys)"
  by (induction ys) (auto simp: fst_count_calls)

lemma sort_count_calls:
  "sort_key fst (map count_calls xs) = map count_calls (sort_key fst xs)"
  by (induction xs) (auto simp: insort_count_calls)

lemma resolve_items_counted:
  "resolve_items (map count_calls items) (w, calls) = (r, (w', calls')) \<Longrightarrow>
     resolve_items items w = (r, w')"
proof (induction items arbitrary: w calls r w' calls')
  case Nil
  then show ?case by simp
next
  case (Cons item items)
  obtain name p where item: "item = (name, p)" by (cases item)
  show ?case
  proof (cases p)
    case (Plain v)
    then show ?thesis using Cons item
      by (auto split: prod.splits sum.splits)
  next
    case (Supplier func)
    then show ?thesis using Cons item
      by (auto simp: counting_def split: prod.splits sum.splits)
  qed
qed

lemma resolve_items_facts:
  "resolve_items (map count_calls items) (w, calls) = (Inr built, (w', calls')) \<Longrightarrow>
     map fst built = map fst items \<and>
     (\<forall>name. calls' name = calls name + supplier_count name items) \<and>
     (\<forall>name v. (name, Plain v) \<in> set items \<longrightarrow> (name, v) \<in> set built) \<and>
     (\<forall>name func. (name, Supplier func) \<in> set items \<longrightarrow>
         (\<exists>x w0 w0'. func w0 = (Inr x, w0') \<and> (name, x) \<in> set built))"
proof (induction items arbitrary: w calls built w' calls')
  case Nil
  then show ?case by (simp add: supplier_count_def)
next
  case (Cons item items)
  obtain name p where item: "item = (name, p)" by (cases item)
  show ?case
  proof (cases p)
    case (Plain v)
    from Cons.prems item Plain obtain xs where
      r: "resolve_items (map count_calls items) (w, calls) = (Inr xs, (w', calls'))"
      and b: "built = (name, v) # xs"
      by (auto split: prod.splits sum.splits)
    from Cons.IH[OF r] have ih:
      "map fst xs = map fst items"
      "\<And>n. calls' n = calls n + supplier_count n items"
      "\<And>n v. (n, Plain v) \<in> set items \<Longrightarrow> (n, v) \<in> set xs"
      "\<And>n g. (n, Supplier g) \<in> set items \<Longrightarrow> \<exists>x w0 w0'. g w0 = (Inr x, w0') \<and> (n, x) \<in> set xs"
      by blast+
    have 1: "map fst built = map fst (item # items)" using ih(1) b item by simp
    have 2: "\<forall>n. calls' n = calls n + supplier_count n (item # items)"
      using ih(2) item Plain by (auto simp: supplier_count_def)
    have 3: "\<forall>n v. (n, Plain v) \<in> set (item # items) \<longrightarrow> (n, v) \<in> set built"
      using ih(3) b item Plain by auto
    have 4: "\<forall>n g. (n, Supplier g) \<in> set (item # items) \<longrightarrow>
         (\<exists>x w0 w0'. g w0 = (Inr x, w0') \<and> (n, x) \<in> set built)"
    proof (intro allI impI)
      fix n g assume "(n, Supplier g) \<in> set (item # items)"
      then have "(n, Supplier g) \<in> set items" using item Plain by auto
      from ih(4)[OF this] b show "\<exists>x w0 w0'. g w0 = (Inr x, w0') \<and> (n, x) \<in> set built"
        by auto
    qed
    from 1 2 3 4 show ?thesis by blast
  next
    case (Supplier func)
    from Cons.prems item Supplier obtain x w1 xs where
      f: "func w = (Inr x, w1)"
      and r: "resolve_items (map count_calls items) (w1, calls(name := Suc (calls name)))
                = (Inr xs, (w', calls'))"
      and b: "built = (name, x) # xs"
      by (auto simp: counting_def split: prod.splits sum.splits)
    from Cons.IH[OF r] have ih:
      "map fst xs = map fst items"
      "\<And>n. calls' n = (calls(name := Suc (calls name))) n + supplier_count n items"
      "\<And>n v. (n, Plain v) \<in> set items \<Longrightarrow> (n, v) \<in> set xs"
      "\<And>n g. (n, Supplier g) \<in> set items \<Longrightarrow> \<exists>x w0 w0'. g w0 = (Inr x, w0') \<and> (n, x) \<in> set xs"
      by blast+
    have 1: "map fst built = map fst (item # items)" using ih(1) b item by simp
    have 2: "\<forall>n. calls' n = calls n + supplier_count n (item # items)"
      using ih(2) item Supplier by (auto simp: supplier_count_def)
    have 3: "\<forall>n v. (n, Plain v) \<in> set (item # items) \<longrightarrow> (n, v) \<in> set built"
      using ih(3) b item Supplier by auto
    have 4: "\<forall>n g. (n, Supplier g) \<in> set (item # items) \<longrightarrow>
         (\<exists>x w0 w0'. g w0 = (Inr x, w0') \<and> (n, x) \<in> set built)"
    proof (intro allI impI)
      fix n g assume "(n, Supplier g) \<in> set (item # items)"
      then consider "n = name \<and> g = func" | "(n, Supplier g) \<in> set items"
        using item Supplier by auto
      then show "\<exists>x w0 w0'. g w0 = (Inr x, w0') \<and> (n, x) \<in> set built"
      proof cases
        case 1
        with f b show ?thesis by auto
      next
        case 2
        from ih(4)[OF 2] b show ?thesis by auto
      qed
    qed
    from 1 2 3 4 show ?thesis by blast
  qed
qed

lemma resolve_items_total:
  "(\<forall>name func w0. (name, Supplier func) \<in> set items \<longrightarrow> (\<exists>x w0'. func w0 = (Inr x, w0'))) \<Longrightarrow>
   \<exists>built w'. resolve_items items w = (Inr built, w')"
proof (induction items arbitrary: w)
  case Nil
  then show ?case by simp
next
  case (Cons item items)
  obtain name p where item: "item = (name, p)" by (cases item)
  have rest: "\<And>w1. \<exists>built w'. resolve_items items w1 = (Inr built, w')"
    using Cons by auto
  show ?case
  proof (cases p)
    case (Plain v)
    from rest[of w] obtain xs w' where "resolve_items items w = (Inr xs, w')" by blast
    then show ?thesis using item Plain by simp
  next
    case (Supplier func)
    with Cons.prems item obtain x w1 where f: "func w = (Inr x, w1)" by fastforce
    from rest[of w1] obtain xs w' where "resolve_items items w1 = (Inr xs, w')" by blast
    then show ?thesis using item Supplier f by simp
  qed
qed

lemma supplier_count_distinct:
  assumes "distinct (map fst items)"
  shows "supplier_count name items = (if \<exists>func. (name, Supplier func) \<in> set items then 1 else 0)"
  using assms
proof (induction items)
  case Nil
  then show ?case by (simp add: supplier_count_def)
next
  case (Cons item items)
  obtain n p where item: "item = (n, p)" by (cases item)
  from Cons.prems item have notin: "\<And>q. (n, q) \<notin> set items" by (auto simp: image_iff)
  have ih: "supplier_count name items = (if \<exists>func. (name, Supplier func) \<in> set items then 1 else 0)"
    using Cons by simp
  show ?case
  proof (cases "n = name \<and> is_supplier p")
    case True
    then obtain func where p: "p = Supplier func" by (cases p) auto
    have "supplier_count name items = 0" using ih notin True by auto
    then show ?thesis using item True p by (auto simp: supplier_count_def)
  next
    case False
    then have "supplier_count name (item # items) = supplier_count name items"
      using item by (auto simp: supplier_count_def)
    moreover have "(\<exists>func. (name, Supplier func) \<in> set (item # items))
        \<longleftrightarrow> (\<exists>func. (name, Supplier func) \<in> set items)"
      using False item by auto
    ultimately show ?thesis using ih by simp
  qed
qed

lemma map_insort_key: "map f (insort_key f x ys) = insort (f x) (map f ys)"
  by (induction ys) auto

lemma map_fst_sort_key: "map f (sort_key f xs) = sort (map f xs)"
  by (induction xs) (auto simp: map_insort_key)

lemma resolve_items_counted_ex:
  assumes "resolve_items items w = (r, w')"
  shows "\<exists>calls'. resolve_items (map count_calls items) (w, calls) = (r, (w', calls'))"
proof -
  obtain r2 w2 c2 where c: "resolve_items (map count_calls items) (w, calls) = (r2, (w2, c2))"
    by (metis surj_pair)
  from resolve_items_counted[OF c] assms have "r2 = r" "w2 = w'" by simp_all
  with c show ?thesis by blast
qed

lemma build_params_counted:
  "build_params (with_call_counts self) wc
     = resolve_items (map count_calls (sort_key fst (attr_dict self))) wc"
  by (simp add: build_params_def with_call_counts_def sort_count_calls)

lemma resolve_items_chain:
  "resolve_items items w = (Inr built, w') \<Longrightarrow>
   \<exists>ws. length built = length items \<and> length ws = Suc (length items) \<and>
        ws ! 0 = w \<and> ws ! length items = w' \<and>
        (\<forall>k<length items.
           fst (built ! k) = fst (items ! k) \<and>
           (case snd (items ! k) of
              Plain v \<Rightarrow> snd (built ! k) = v \<and> ws ! Suc k = ws ! k
            | Supplier func \<Rightarrow> func (ws ! k) = (Inr (snd (built ! k)), ws ! Suc k)))"
proof (induction items arbitrary: w built)
  case Nil
  then show ?case by (intro exI[of _ "[w]"]) simp
next
  case (Cons item items)
  obtain name p where item: "item = (name, p)" by (cases item)
  show ?case
  proof (cases p)
    case (Plain v)
    from Cons.prems item Plain obtain xs where
      r: "resolve_items items w = (Inr xs, w')" and b: "built = (name, v) # xs"
      by (auto split: prod.splits sum.splits)
    from Cons.IH[OF r] obtain ws where ws:
      "length xs = length items" "length ws = Suc (length items)"
      "ws ! 0 = w" "ws ! length items = w'"
      "\<forall>k<length items.
           fst (xs ! k) = fst (items ! k) \<and>
           (case snd (items ! k) of
              Plain v \<Rightarrow> snd (xs ! k) = v \<and> ws ! Suc k = ws ! k
            | Supplier func \<Rightarrow> func (ws ! k) = (Inr (snd (xs ! k)), ws ! Suc k))"
      by blast
    have step: "\<forall>k<length (item # items).
           fst (built ! k) = fst ((item # items) ! k) \<and>
           (case snd ((item # items) ! k) of
              Plain v \<Rightarrow> snd (built ! k) = v \<and> (w # ws) ! Suc k = (w # ws) ! k
            | Supplier func \<Rightarrow> func ((w # ws) ! k) = (Inr (snd (built ! k)), (w # ws) ! Suc k))"
    proof (intro allI impI)
      fix k assume "k < length (item # items)"
      show "fst (built ! k) = fst ((item # items) ! k) \<and>
           (case snd ((item # items) ! k) of
              Plain v \<Rightarrow> snd (built ! k) = v \<and> (w # ws) ! Suc k = (w # ws) ! k
            | Supplier func \<Rightarrow> func ((w # ws) ! k) = (Inr (snd (built ! k)), (w # ws) ! Suc k))"
      proof (cases k)
        case 0
        then show ?thesis using ws(3) b item Plain by simp
      next
        case (Suc j)
        with \<open>k < length (item # items)\<close> have "j < length items" by simp
        from ws(5)[rule_format, OF this] Suc b show ?thesis
          by (cases "snd (items ! j)") simp_all
      qed
    qed
    show ?thesis
      using ws(1-4) b step by (intro exI[of _ "w # ws"]) simp
  next
    case (Supplier func)
    from Cons.prems item Supplier obtain x w1 xs where
      f: "func w = (Inr x, w1)"
      and r: "resolve_items items w1 = (Inr xs, w')" and b: "built = (name, x) # xs"
      by (auto split: prod.splits sum.splits)
    from Cons.IH[OF r] obtain ws where ws:
      "length xs = length items" "length ws = Suc (length items)"
      "ws ! 0 = w1" "ws ! length items = w'"
      "\<forall>k<length items.
           fst (xs ! k) = fst (items ! k) \<and>
           (case snd (items ! k) of
              Plain v \<Rightarrow> snd (xs ! k) = v \<and> ws ! Suc k = ws ! k
            | Supplier func \<Rightarrow> func (ws ! k) = (Inr (snd (xs ! k)), ws ! Suc k))"
      by blast
    have step: "\<forall>k<length (item # items).
           fst (built ! k) = fst ((item # items) ! k) \<and>
           (case snd ((item # items) ! k) of
              Plain v \<Rightarrow> snd (built ! k) = v \<and> (w # ws) ! Suc k = (w # ws) ! k
            | Supplier func \<Rightarrow> func ((w # ws) ! k) = (Inr (snd (built ! k)), (w # ws) ! Suc k))"
    proof (intro allI impI)
      fix k assume "k < length (item # items)"
      show "fst (built ! k) = fst ((item # items) ! k) \<and>
           (case snd ((item # items) ! k) of
              Plain v \<Rightarrow> snd (built ! k) = v \<and> (w # ws) ! Suc k = (w # ws) ! k
            | Supplier func \<Rightarrow> func ((w # ws) ! k) = (Inr (snd (built ! k)), (w # ws) ! Suc k))"
      proof (cases k)
        case 0
        then show ?thesis using ws(3) b item Supplier f by simp
      next
        case (Suc j)
        with \<open>k < length (item # items)\<close> have "j < length items" by simp
        from ws(5)[rule_format, OF this] Suc b show ?thesis
          by (cases "snd (items ! j)") simp_all
      qed
    qed
    show ?thesis
      using ws(1-4) b step by (intro exI[of _ "w # ws"]) simp
  qed
qed

lemma sorted_items:
  assumes "distinct (map fst d)"
  shows "set (sort_key fst d) = set d \<and> sorted_wrt (<) (map fst (sort_key fst d))"
proof -
  have "distinct (map fst (sort_key fst d))"
    using assms by (simp add: map_fst_sort_key)
  moreover have "sorted (map fst (sort_key fst d))" by (rule sorted_sort_key)
  ultimately show ?thesis by (simp add: strict_sorted_iff)
qed

lemma build_params_chain:
  assumes "distinct (map fst (attr_dict self))" and "build_params self w = (Inr built, w')"
  shows "\<exists>items ws.
          set items = set (attr_dict self) \<and> sorted_wrt (<) (map fst items) \<and>
          length built = length items \<and> length ws = Suc (length items) \<and>
          ws ! 0 = w \<and> ws ! length items = w' \<and>
          (\<forall>k<length items.
             fst (built ! k) = fst (items ! k) \<and>
             (case snd (items ! k) of
                Plain v \<Rightarrow> snd (built ! k) = v \<and> ws ! Suc k = ws ! k
              | Supplier func \<Rightarrow> func (ws ! k) = (Inr (snd (built ! k)), ws ! Suc k)))"
proof -
  let ?items = "sort_key fst (attr_dict self)"
  from assms(2) have "resolve_items ?items w = (Inr built, w')" by (simp add: build_params_def)
  from resolve_items_chain[OF this] obtain ws where
    "length built = length ?items \<and> length ws = Suc (length ?items) \<and>
        ws ! 0 = w \<and> ws ! length ?items = w' \<and>
        (\<forall>k<length ?items.
           fst (built ! k) = fst (?items ! k) \<and>
           (case snd (?items ! k) of
              Plain v \<Rightarrow> snd (built ! k) = v \<and> ws ! Suc k = ws ! k
            | Supplier func \<Rightarrow> func (ws ! k) = (Inr (snd (built ! k)), ws ! Suc k)))"
    by blast
  with sorted_items[OF assms(1)] show ?thesis
    by (intro exI[of _ ?items] exI[of _ ws]) blast
qed

lemma shared_counter_build:
  "build_params shared_counter_session 0 = (Inr shared_counter_params, 2)"
  by (simp add: build_params_def shared_counter_session_def shared_counter_params_def str_def
      seed_func_def stub_randrange_def)

text \<open>
  Claim C5. For a stored parameter bundle (a dictionary, so its names are distinct):
  when no supplier's callable raises, \<open>build_params\<close> returns a bundle; and whenever
  it returns one, the names of the bundle are the stored names in lexicographic order,
  every plain value stands in it unchanged, every supplier's entry holds a value its
  callable returned, and the run with call counters returns the same bundle and
  leaves each supplier's counter one higher and every other counter as it was: each
  callable is invoked exactly once. The parameters are gone through in lexicographic
  order of their names: with \<open>items\<close> the stored items in that order, there are
  worlds \<open>ws\<close>, the first the world before and the last the world after, such that
  the \<open>k\<close>-th entry of the bundle has the \<open>k\<close>-th name and holds the plain value
  itself, the world staying as it is, or the value the supplier's callable returns
  when called on the \<open>k\<close>-th world, which it leaves as the next.
\<close>

theorem build_params_resolves:
  assumes "distinct (map fst (attr_dict self))"
  shows
   "((\<forall>name func w0. (name, Supplier func) \<in> set (attr_dict self)
         \<longrightarrow> (\<exists>x w0'. func w0 = (Inr x, w0')))
       \<longrightarrow> (\<exists>built w'. build_params self w = (Inr built, w'))) \<and>
    (build_params self w = (Inr built, w') \<longrightarrow>
       map fst built = sort (map fst (attr_dict self)) \<and>
       (\<forall>name v. (name, Plain v) \<in> set (attr_dict self) \<longrightarrow> (name, v) \<in> set built) \<and>
       (\<forall>name func. (name, Supplier func) \<in> set (attr_dict self) \<longrightarrow>
          (\<exists>x w0 w0'. func w0 = (Inr x, w0') \<and> (name, x) \<in> set built)) \<and>
       (\<exists>calls'.
          build_params (with_call_counts self) (w, calls) = (Inr built, (w', calls')) \<and>
          (\<forall>name. calls' name = calls name +
             (if \<exists>func. (name, Supplier func) \<in> set (attr_dict self) then 1 else 0))) \<and>
       (\<exists>items ws.
          set items = set (attr_dict self) \<and> sorted_wrt (<) (map fst items) \<and>
          length built = length items \<and> length ws = Suc (length items) \<and>
          ws ! 0 = w \<and> ws ! length items = w' \<and>
          (\<forall>k<length items.
             fst (built ! k) = fst (items ! k) \<and>
             (case snd (items ! k) of
                Plain v \<Rightarrow> snd (built ! k) = v \<and> ws ! Suc k = ws ! k
              | Supplier func \<Rightarrow> func (ws ! k) = (Inr (snd (built ! k)), ws ! Suc k)))))"
proof (intro conjI impI)
  assume "\<forall>name func w0. (name, Supplier func) \<in> set (attr_dict self)
         \<longrightarrow> (\<exists>x w0'. func w0 = (Inr x, w0'))"
  then have "\<forall>name func w0. (name, Supplier func) \<in> set (sort_key fst (attr_dict self))
         \<longrightarrow> (\<exists>x w0'. func w0 = (Inr x, w0'))"
    by simp
  from resolve_items_total[OF this]
  show "\<exists>built w'. build_params self w = (Inr built, w')"
    by (simp add: build_params_def)
next
  let ?items = "sort_key fst (attr_dict self)"
  assume "build_params self w = (Inr built, w')"
  then have r: "resolve_items ?items w = (Inr built, w')"
    by (simp add: build_params_def)
  from resolve_items_counted_ex[OF r] obtain calls' where
    c: "resolve_items (map count_calls ?items) (w, calls) = (Inr built, (w', calls'))"
    by blast
  from resolve_items_facts[OF c] have f:
    "map fst built = map fst ?items"
    "\<And>n. calls' n = calls n + supplier_count n ?items"
    "\<And>n v. (n, Plain v) \<in> set ?items \<Longrightarrow> (n, v) \<in> set built"
    "\<And>n g. (n, Supplier g) \<in> set ?items \<Longrightarrow> \<exists>x w0 w0'. g w0 = (Inr x, w0') \<and> (n, x) \<in> set built"
    by blast+
  show "map fst built = sort (map fst (attr_dict self))"
    using f(1) by (simp add: map_fst_sort_key)
  show "\<forall>name v. (name, Plain v) \<in> set (attr_dict self) \<longrightarrow> (name, v) \<in> set built"
    using f(3) by simp
  show "\<forall>name func. (name, Supplier func) \<in> set (attr_dict self) \<longrightarrow>
          (\<exists>x w0 w0'. func w0 = (Inr x, w0') \<and> (name, x) \<in> set built)"
    using f(4) by simp
  have d: "distinct (map fst ?items)"
    using assms by (simp add: map_fst_sort_key)
  have "\<forall>name. calls' name = calls name +
             (if \<exists>func. (name, Supplier func) \<in> set (attr_dict self) then 1 else 0)"
    using f(2) supplier_count_distinct[OF d] by simp
  with c show "\<exists>calls'.
          build_params (with_call_counts self) (w, calls) = (Inr built, (w', calls')) \<and>
          (\<forall>name. calls' name = calls name +
             (if \<exists>func. (name, Supplier func) \<in> set (attr_dict self) then 1 else 0))"
    by (auto simp: build_params_counted)
  show "\<exists>items ws.
          set items = set (attr_dict self) \<and> sorted_wrt (<) (map fst items) \<and>
          length built = length items \<and> length ws = Suc (length items) \<and>
          ws ! 0 = w \<and> ws ! length items = w' \<and>
          (\<forall>k<length items.
             fst (built ! k) = fst (items ! k) \<and>
             (case snd (items ! k) of
                Plain v \<Rightarrow> snd (built ! k) = v \<and> ws ! Suc k = ws ! k
              | Supplier func \<Rightarrow> func (ws ! k) = (Inr (snd (built ! k)), ws ! Suc k)))"
    using assms \<open>build_params self w = (Inr built, w')\<close> by (rule build_params_chain)
qed

theorem build_params_resolves_witness:
  "distinct (map fst (attr_dict shared_counter_session)) \<and>
   build_params shared_counter_session 0 = (Inr shared_counter_params, 2) \<and>
   map fst shared_counter_params = sort (map fst (attr_dict shared_counter_session)) \<and>
   (\<exists>calls'. build_params (with_call_counts shared_counter_session) (0, no_calls)
                = (Inr shared_counter_params, (2, calls')) \<and>
              calls' (str ''a'') = 1 \<and> calls' (str ''b'') = 1 \<and> calls' (str ''top_k'') = 0)"
proof -
  have d: "distinct (map fst (attr_dict shared_counter_session))"
    by (simp add: shared_counter_session_def str_def)
  have b: "build_params shared_counter_session 0 = (Inr shared_counter_params, 2)"
    by (rule shared_counter_build)
  have sa: "\<exists>func. (str ''a'', Supplier func) \<in> set (attr_dict shared_counter_session)"
    and sb: "\<exists>func. (str ''b'', Supplier func) \<in> set (attr_dict shared_counter_session)"
    by (auto simp: shared_counter_session_def)
  have t: "\<not> (\<exists>func. (str ''top_k'', Supplier func)
              \<in> set (attr_dict shared_counter_session))"
    by (simp add: shared_counter_session_def str_def)
  note inst = build_params_resolves[OF d, of 0 shared_counter_params 2 no_calls,
      THEN conjunct2, rule_format, OF b]
  from inst have 1:
    "map fst shared_counter_params = sort (map fst (attr_dict shared_counter_session))"
    by (rule conjunct1)
  from inst[THEN conjunct2, THEN conjunct2, THEN conjunct2, THEN conjunct1] obtain calls' where
    c: "build_params (with_call_counts shared_counter_session) (0, no_calls)
                = (Inr shared_counter_params, (2, calls'))"
    and n: "\<And>name. calls' name = no_calls name +
             (if \<exists>func. (name, Supplier func) \<in> set (attr_dict shared_counter_session)
              then 1 else 0)"
    by blast
  have "calls' (str ''a'') = 1" using n[of "str ''a''"] sa by (simp add: no_calls_def)
  moreover have "calls' (str ''b'') = 1" using n[of "str ''b''"] sb by (simp add: no_calls_def)
  moreover have "calls' (str ''top_k'') = 0"
    using n[of "str ''top_k''"] t by (simp add: no_calls_def)
  ultimately show ?thesis using d b 1 c by blast
qed

section \<open>Words\<close>

lemma words_acc_sep:
  "P c \<Longrightarrow> words_acc P w (c # cs) = words_acc P w [] @ words_acc P [] cs"
  by simp

























section \<open>Wrapping chunks\<close>






lemma fits_subset: "fits width cs \<Longrightarrow> set ds \<subseteq> set cs \<Longrightarrow> fits width ds"
  by (auto simp: fits_def)





section \<open>Chunks of a text without hyphens\<close>
















section \<open>Prettifying\<close>










end
